theory Spec2Isabelle
  imports Main
begin

section \<open>Python text\<close>

text \<open>
  A Python \<open>str\<close> is modelled as a \<open>string\<close>, one \<open>char\<close> per code point; the model
  covers the code points below 256. In that range the decimal digits of \<open>\d\<close> are
  \<open>0\<close> to \<open>9\<close>, and the white space of \<open>str.strip\<close> is the set listed in
  \<open>py_isspace\<close>.
\<close>

definition newline :: char where
  "newline = CHR 0x0A"

definition backslash :: char where
  "backslash = CHR 0x5C"

definition py_isspace :: "char \<Rightarrow> bool" where
  "py_isspace c = (of_char c \<in> set [9, 10, 11, 12, 13, 28, 29, 30, 31, 32, 133, 160 :: nat])"

text \<open>\<open>s.strip()\<close>: white space is removed at both ends.\<close>

definition py_strip :: "string \<Rightarrow> string" where
  "py_strip s = rev (dropWhile py_isspace (rev (dropWhile py_isspace s)))"

text \<open>\<open>s.split(c)\<close> for a separator of one character; the result is never empty.\<close>

fun py_split :: "char \<Rightarrow> string \<Rightarrow> string list" where
  "py_split c [] = [[]]"
| "py_split c (x # xs) =
     (if x = c then [] # py_split c xs
      else (case py_split c xs of [] \<Rightarrow> [[x]] | w # ws \<Rightarrow> (x # w) # ws))"

text \<open>
  \<open>s.replace(old, new)\<close>: the occurrences of \<open>old\<close> are found from left to right and do
  not overlap; an empty \<open>old\<close> matches before every character and at the end.
\<close>

fun replace_scan :: "string \<Rightarrow> string \<Rightarrow> string \<Rightarrow> string" where
  "replace_scan old new [] = []"
| "replace_scan old new (x # xs) =
     (if old \<noteq> [] \<and> take (length old) (x # xs) = old
      then new @ replace_scan old new (drop (length old) (x # xs))
      else x # replace_scan old new xs)"

definition py_replace :: "string \<Rightarrow> string \<Rightarrow> string \<Rightarrow> string" where
  "py_replace old new s =
     (if old = [] then new @ concat (map (\<lambda>c. c # new) s) else replace_scan old new s)"

text \<open>\<open>repr(s)\<close> of a \<open>str\<close>, for code points below 256.\<close>

definition hex_digit :: "nat \<Rightarrow> char" where
  "hex_digit n = (''0123456789abcdef'' ! (n mod 16))"

definition py_printable :: "char \<Rightarrow> bool" where
  "py_printable c =
     (let n = (of_char c :: nat)
      in 32 \<le> n \<and> n \<noteq> 127 \<and> \<not> (128 \<le> n \<and> n \<le> 160) \<and> n \<noteq> 173)"

definition repr_char :: "char \<Rightarrow> char \<Rightarrow> string" where
  "repr_char quote c =
     (if c = quote \<or> c = backslash then [backslash, c]
      else if c = CHR 0x09 then [backslash, CHR ''t'']
      else if c = newline then [backslash, CHR ''n'']
      else if c = CHR 0x0D then [backslash, CHR ''r'']
      else if py_printable c then [c]
      else [backslash, CHR ''x'', hex_digit (of_char c div 16), hex_digit (of_char c)])"

definition py_repr :: "string \<Rightarrow> string" where
  "py_repr s =
     (let quote = (if CHR 0x27 \<in> set s \<and> CHR 0x22 \<notin> set s then CHR 0x22 else CHR 0x27)
      in [quote] @ concat (map (repr_char quote) s) @ [quote])"



section \<open>Regular expressions\<close>

text \<open>
  The constructs of Python's \<open>re\<close> that the program's patterns use, with the matching
  order of a backtracking matcher: a greedy repetition tries the longest run first, a
  lazy one the shortest, an optional part is tried before it is skipped, alternatives
  are tried from left to right. A continuation receives the rest of the text and the
  groups captured so far, and a failed continuation makes the matcher try its next
  choice.
\<close>

datatype regex =
    Lit string
  | Cls "char \<Rightarrow> bool"
  | Rep bool nat "char \<Rightarrow> bool"
  | Opt regex
  | Alt regex regex
  | Seq regex regex
  | Grp string regex
  | Eos

type_synonym groups = "string \<rightharpoonup> string"

fun rep_greedy :: "(char \<Rightarrow> bool) \<Rightarrow> nat \<Rightarrow> string \<Rightarrow> (string \<Rightarrow> 'a option) \<Rightarrow> 'a option" where
  "rep_greedy P n [] k = (if n = 0 then k [] else None)"
| "rep_greedy P n (x # xs) k =
     (if P x
      then (case rep_greedy P (n - 1) xs k of
              Some v \<Rightarrow> Some v
            | None \<Rightarrow> if n = 0 then k (x # xs) else None)
      else if n = 0 then k (x # xs) else None)"

fun rep_lazy :: "(char \<Rightarrow> bool) \<Rightarrow> nat \<Rightarrow> string \<Rightarrow> (string \<Rightarrow> 'a option) \<Rightarrow> 'a option" where
  "rep_lazy P n [] k = (if n = 0 then k [] else None)"
| "rep_lazy P n (x # xs) k =
     (if n = 0
      then (case k (x # xs) of
              Some v \<Rightarrow> Some v
            | None \<Rightarrow> if P x then rep_lazy P 0 xs k else None)
      else if P x then rep_lazy P (n - 1) xs k else None)"

fun rmatch :: "regex \<Rightarrow> string \<Rightarrow> groups \<Rightarrow> (string \<Rightarrow> groups \<Rightarrow> 'a option) \<Rightarrow> 'a option" where
  "rmatch (Lit w) s c k = (if take (length w) s = w then k (drop (length w) s) c else None)"
| "rmatch (Cls P) s c k = (case s of [] \<Rightarrow> None | x # xs \<Rightarrow> if P x then k xs c else None)"
| "rmatch (Rep greedy n P) s c k =
     (if greedy then rep_greedy P n s (\<lambda>s'. k s' c) else rep_lazy P n s (\<lambda>s'. k s' c))"
| "rmatch (Opt r) s c k = (case rmatch r s c k of Some v \<Rightarrow> Some v | None \<Rightarrow> k s c)"
| "rmatch (Alt a b) s c k = (case rmatch a s c k of Some v \<Rightarrow> Some v | None \<Rightarrow> rmatch b s c k)"
| "rmatch (Seq a b) s c k = rmatch a s c (\<lambda>s' c'. rmatch b s' c' k)"
| "rmatch (Grp g r) s c k =
     rmatch r s c (\<lambda>s' c'. k s' (c'(g \<mapsto> take (length s - length s') s)))"
| "rmatch Eos s c k = (if s = [] \<or> s = [newline] then k s c else None)"

text \<open>The match object: where the match starts and ends in the text, and its groups.\<close>

record py_match =
  m_start :: nat
  m_end :: nat
  m_groups :: groups

text \<open>\<open>re.match(r, s)\<close> at offset \<open>i\<close> of a text whose rest from there is \<open>s\<close>.\<close>

definition match_at :: "regex \<Rightarrow> nat \<Rightarrow> string \<Rightarrow> py_match option" where
  "match_at r i s =
     rmatch r s Map.empty
       (\<lambda>s' c. Some \<lparr>m_start = i, m_end = i + (length s - length s'), m_groups = c\<rparr>)"

definition re_match :: "regex \<Rightarrow> string \<Rightarrow> py_match option" where
  "re_match r s = match_at r 0 s"

text \<open>\<open>re.search(r, s)\<close>: the first offset, from the left, where the pattern matches.\<close>

fun search_from :: "regex \<Rightarrow> nat \<Rightarrow> string \<Rightarrow> py_match option" where
  "search_from r i [] = match_at r i []"
| "search_from r i (x # xs) =
     (case match_at r i (x # xs) of
        Some m \<Rightarrow> Some m
      | None \<Rightarrow> search_from r (Suc i) xs)"

definition re_search :: "regex \<Rightarrow> string \<Rightarrow> py_match option" where
  "re_search r s = search_from r 0 s"

text \<open>\<open>m.group(g)\<close> for a group that took part in the match.\<close>

definition group :: "py_match \<Rightarrow> string \<Rightarrow> string" where
  "group m g = (case m_groups m g of Some v \<Rightarrow> v | None \<Rightarrow> [])"

section \<open>The patterns of the export format\<close>

text \<open>
  The pattern texts, as the Python literals spell them (an unknown escape such as
  \<open>\d\<close> keeps its backslash), and the expressions they denote. The capturing groups
  without a name are called by their number in \<open>WHATSAPP_RE\<close>.
\<close>

definition DATE_RE_text :: string where
  "DATE_RE_text = ''(?P<date>['' @ [backslash] @ ''d/'' @ [backslash] @ ''-.]+)''"

definition TIME_RE_text :: string where
  "TIME_RE_text = ''(?P<time>['' @ [backslash] @ ''d:]+( [AP]M)?)''"

definition DATETIME_RE_text :: string where
  "DATETIME_RE_text =
     [backslash] @ ''[?'' @ DATE_RE_text @ '',? '' @ TIME_RE_text @ [backslash] @ '']?''"

definition SEPARATOR_RE_text :: string where
  "SEPARATOR_RE_text = ''( - |: | )''"

definition NAME_RE_text :: string where
  "NAME_RE_text = ''(?P<name>[^:]+?)''"

definition WHATSAPP_RE_text :: string where
  "WHATSAPP_RE_text =
     DATETIME_RE_text @ SEPARATOR_RE_text @ NAME_RE_text @ '': '' @ ''(?P<body>.*$)''"

definition FIRSTLINE_RE_text :: string where
  "FIRSTLINE_RE_text = DATETIME_RE_text @ SEPARATOR_RE_text @ ''(?P<body>.*$)''"

definition is_digit :: "char \<Rightarrow> bool" where
  "is_digit c = (c \<in> set ''0123456789'')"

definition date_char :: "char \<Rightarrow> bool" where
  "date_char c = (is_digit c \<or> c = CHR ''/'' \<or> c = CHR ''-'' \<or> c = CHR ''.'')"

definition time_char :: "char \<Rightarrow> bool" where
  "time_char c = (is_digit c \<or> c = CHR '':'')"

definition dot :: "char \<Rightarrow> bool" where
  "dot c = (c \<noteq> newline)"

definition seqs :: "regex list \<Rightarrow> regex" where
  "seqs rs = foldr Seq rs (Lit [])"

definition DATE_RE :: regex where
  "DATE_RE = Grp ''date'' (Rep True 1 date_char)"

definition TIME_RE :: regex where
  "TIME_RE =
     Grp ''time''
       (seqs [Rep True 1 time_char,
              Opt (Grp ''3'' (seqs [Lit '' '', Cls (\<lambda>c. c = CHR ''A'' \<or> c = CHR ''P''), Lit ''M'']))])"

definition DATETIME_RE :: regex where
  "DATETIME_RE =
     seqs [Opt (Lit ''[''), DATE_RE, Opt (Lit '',''), Lit '' '', TIME_RE, Opt (Lit '']'')]"

definition SEPARATOR_RE :: regex where
  "SEPARATOR_RE = Grp ''4'' (Alt (Lit '' - '') (Alt (Lit '': '') (Lit '' '')))"

definition NAME_RE :: regex where
  "NAME_RE = Grp ''name'' (Rep False 1 (\<lambda>c. c \<noteq> CHR '':''))"

definition BODY_RE :: regex where
  "BODY_RE = Grp ''body'' (seqs [Rep True 0 dot, Eos])"

definition WHATSAPP_RE :: regex where
  "WHATSAPP_RE = seqs [DATETIME_RE, SEPARATOR_RE, NAME_RE, Lit '': '', BODY_RE]"

definition FIRSTLINE_RE :: regex where
  "FIRSTLINE_RE = seqs [DATETIME_RE, SEPARATOR_RE, BODY_RE]"

text \<open>The pattern of \<open>replace_attachment\<close>, \<open>(<attached: (.+?)>)\<close>.\<close>

definition ATTACHED_RE :: regex where
  "ATTACHED_RE = Grp ''1'' (seqs [Lit ''<attached: '', Grp ''2'' (Rep False 1 dot), Lit ''>''])"

section \<open>The program\<close>

datatype error =
    Error string
  | ParserError

definition attachment_html :: "string \<Rightarrow> string" where
  \<open>attachment_html file =
     (let ext = last (py_split (CHR ''.'') file)
      in if ext \<in> set [''jpg'', ''png'', ''jpeg'']
         then ''<a target="_blank" href="'' @ file @ ''"><img width="128" height="128" src="''
              @ file @ ''" /></a><br>''
         else if ext \<in> set [''opus'']
         then ''<audio controls src="'' @ file @ ''" /><br>''
         else if ext \<in> set [''mp4'']
         then ''<video controls src="'' @ file @ ''" /><br>''
         else ''<a target="_blank" href="'' @ file @ ''" />'' @ file @ ''</a>'')\<close>

definition replace_attachment :: "string \<Rightarrow> string" where
  "replace_attachment body =
     (case re_search ATTACHED_RE body of
        None \<Rightarrow> body
      | Some attachment \<Rightarrow>
          py_replace (group attachment ''1'') (attachment_html (group attachment ''2'')) body)"

text \<open>
  \<open>dateutil.parser.parse(text, dayfirst=True)\<close> belongs to a library outside the
  program; it is the parameter \<open>parse\<close>, and \<open>None\<close> is the exception it raises on a
  text it cannot read as a date and time.
\<close>

type_synonym 'd message = "'d \<times> string \<times> string"

definition parsed :: "(string \<Rightarrow> 'd option) \<Rightarrow> py_match \<Rightarrow> string \<Rightarrow> error + 'd message option" where
  "parsed parse m name =
     (let body = replace_attachment (group m ''body'')
      in case parse (group m ''date'' @ '' '' @ group m ''time'') of
           None \<Rightarrow> Inl ParserError
         | Some d \<Rightarrow> Inr (Some (d, name, body)))"

definition ParseLine :: "(string \<Rightarrow> 'd option) \<Rightarrow> string \<Rightarrow> error + 'd message option" where
  "ParseLine parse line =
     (case re_match WHATSAPP_RE line of
        Some m \<Rightarrow> parsed parse m (group m ''name'')
      | None \<Rightarrow>
          (case re_match FIRSTLINE_RE line of
             Some m \<Rightarrow> parsed parse m ''nobody''
           | None \<Rightarrow> Inr None))"

text \<open>
  The loop of \<open>IdentifyMessages\<close>. Its three variables \<open>msg_date\<close>, \<open>msg_user\<close> and
  \<open>msg_body\<close> are assigned together, and a parsed date is never \<open>None\<close>: they are one
  optional message in progress.
\<close>

definition first_line_error :: "string \<Rightarrow> error" where
  "first_line_error line =
     Error (''Can't parse the first line: '' @ py_repr line @
            '', regexes are FIRSTLINE_RE='' @ py_repr FIRSTLINE_RE_text @
            '' and WHATSAPP_RE='' @ py_repr WHATSAPP_RE_text)"

type_synonym 'd progress = "'d message list \<times> 'd message option"

definition identify_step ::
  "(string \<Rightarrow> 'd option) \<Rightarrow> 'd progress \<Rightarrow> string \<Rightarrow> error + 'd progress" where
  "identify_step parse st line =
     (case ParseLine parse line of
        Inl e \<Rightarrow> Inl e
      | Inr (Some m) \<Rightarrow>
          (case snd st of
             Some msg \<Rightarrow> Inr (fst st @ [msg], Some m)
           | None \<Rightarrow> Inr (fst st, Some m))
      | Inr None \<Rightarrow>
          (case snd st of
             None \<Rightarrow> Inl (first_line_error line)
           | Some (msg_date, msg_user, msg_body) \<Rightarrow>
               Inr (fst st, Some (msg_date, msg_user, msg_body @ [newline] @ py_strip line))))"

fun identify_loop ::
  "(string \<Rightarrow> 'd option) \<Rightarrow> 'd progress \<Rightarrow> string list \<Rightarrow> error + 'd progress" where
  "identify_loop parse st [] = Inr st"
| "identify_loop parse st (line # lines) =
     (case identify_step parse st line of
        Inl e \<Rightarrow> Inl e
      | Inr st' \<Rightarrow> identify_loop parse st' lines)"

definition IdentifyMessages :: "(string \<Rightarrow> 'd option) \<Rightarrow> string list \<Rightarrow> error + 'd message list" where
  "IdentifyMessages parse lines =
     (case identify_loop parse ([], None) lines of
        Inl e \<Rightarrow> Inl e
      | Inr (messages, Some msg) \<Rightarrow> Inr (messages @ [msg])
      | Inr (messages, None) \<Rightarrow> Inr messages)"

text \<open>
  \<open>itertools.groupby(xs, key)\<close>: a group is a maximal run of neighbours whose keys
  equal the key of the run's first element.
\<close>

function groupby :: "('a \<Rightarrow> 'k) \<Rightarrow> 'a list \<Rightarrow> ('k \<times> 'a list) list" where
  "groupby key [] = []"
| "groupby key (x # xs) =
     (key x, x # takeWhile (\<lambda>y. key y = key x) xs)
       # groupby key (dropWhile (\<lambda>y. key y = key x) xs)"
  by pat_completeness auto
termination
  by (relation "measure (\<lambda>(key, xs). length xs)") (auto simp: length_dropWhile_le less_Suc_eq_le)

text \<open>\<open>os.path.basename(p)\<close>: the text after the last \<open>/\<close>.\<close>

definition basename :: "string \<Rightarrow> string" where
  "basename p = last (py_split (CHR ''/'') p)"

type_synonym 'd grouping = "(string \<rightharpoonup> nat) \<times> nat \<times> (string \<times> 'd message list) list"

fun template_loop :: "'d grouping \<Rightarrow> (string \<times> 'd message list) list \<Rightarrow> 'd grouping" where
  "template_loop st [] = st"
| "template_loop (user_idx, idx, by_user) ((user, msgs_of_user) # rest) =
     (if user_idx user = None
      then template_loop (user_idx(user \<mapsto> idx), idx + 1, by_user @ [(user, msgs_of_user)]) rest
      else template_loop (user_idx, idx, by_user @ [(user, msgs_of_user)]) rest)"

record 'd template_data =
  by_user :: "(string \<times> 'd message list) list"
  input_basename :: string
  input_full_path :: string
  user_idx :: "string \<rightharpoonup> nat"

definition TemplateData :: "'d message list \<Rightarrow> string \<Rightarrow> 'd template_data" where
  "TemplateData messages input_filename =
     (case template_loop (Map.empty, 1, []) (groupby (\<lambda>x. fst (snd x)) messages) of
        (indices, idx, runs) \<Rightarrow>
          \<lparr>by_user = runs, input_basename = basename input_filename,
           input_full_path = input_filename, user_idx = indices\<rparr>)"


















section \<open>Notions used in the statements\<close>

text \<open>A line that \<open>ParseLine\<close> matches.\<close>

definition is_match :: "(string \<Rightarrow> 'd option) \<Rightarrow> string \<Rightarrow> bool" where
  "is_match parse line = (case ParseLine parse line of Inr (Some m) \<Rightarrow> True | _ \<Rightarrow> False)"

text \<open>A line with only its trailing white space removed, \<open>s.rstrip()\<close>.\<close>

definition py_rstrip :: "string \<Rightarrow> string" where
  "py_rstrip s = rev (dropWhile py_isspace (rev s))"

text \<open>
  A date parser for concrete runs: it keeps the text as the date, and raises on a text
  without any digit, which \<open>dateutil\<close> cannot read as a date either.
\<close>

definition digits_or_raise :: "string \<Rightarrow> string option" where
  "digits_or_raise t = (if list_ex is_digit t then Some t else None)"

text \<open>
  The marker of a file, and the file name that \<open>ATTACHED_RE\<close> captures at the head of
  a text, computed directly: after \<open><attached: \<close> comes one character other than a
  newline, then the shortest run of such characters that a \<open>>\<close> follows.
\<close>

definition marker :: "string \<Rightarrow> string" where
  "marker file = ''<attached: '' @ file @ ''>''"

fun until_gt :: "string \<Rightarrow> string option" where
  "until_gt [] = None"
| "until_gt (x # xs) =
     (if x = CHR ''>'' then Some []
      else if x = newline then None
      else map_option (Cons x) (until_gt xs))"

definition attached_file :: "string \<Rightarrow> string option" where
  "attached_file s =
     (if take (length ''<attached: '') s = ''<attached: ''
      then (case drop (length ''<attached: '') s of
              [] \<Rightarrow> None
            | x # xs \<Rightarrow> if x = newline then None else map_option (Cons x) (until_gt xs))
      else None)"

text \<open>The distinct elements of a list, in the order in which they are first met.\<close>

fun first_seen :: "'a list \<Rightarrow> 'a list \<Rightarrow> 'a list" where
  "first_seen seen [] = seen"
| "first_seen seen (x # xs) =
     (if x \<in> set seen then first_seen seen xs else first_seen (seen @ [x]) xs)"

definition distinct_senders :: "'d message list \<Rightarrow> string list" where
  "distinct_senders messages = first_seen [] (map (\<lambda>x. fst (snd x)) messages)"

text \<open>The messages that a state of the loop holds: those emitted and the one in progress.\<close>

definition in_progress :: "'d progress \<Rightarrow> nat" where
  "in_progress st = length (fst st) + (case snd st of None \<Rightarrow> 0 | Some m \<Rightarrow> 1)"

text \<open>
  The invariant of the loop of \<open>TemplateData\<close>: the senders seen so far are numbered from
  1 in the order in which they were seen, and \<open>idx\<close> is the next number.
\<close>

definition numbered :: "string list \<Rightarrow> (string \<rightharpoonup> nat) \<Rightarrow> nat \<Rightarrow> bool" where
  "numbered seen idx_of idx \<longleftrightarrow>
     idx = length seen + 1 \<and> distinct seen \<and> dom idx_of = set seen \<and>
     (\<forall>n < length seen. idx_of (seen ! n) = Some (n + 1))"

text \<open>
  The groups that take part in every match of an expression: a group that the program
  reads is one of them, so that \<open>group\<close> never meets a group without a value.
\<close>

fun must_groups :: "regex \<Rightarrow> string set" where
  "must_groups (Lit w) = {}"
| "must_groups (Cls P) = {}"
| "must_groups (Rep greedy n P) = {}"
| "must_groups (Opt r) = {}"
| "must_groups (Alt a b) = must_groups a \<inter> must_groups b"
| "must_groups (Seq a b) = must_groups a \<union> must_groups b"
| "must_groups (Grp g r) = insert g (must_groups r)"
| "must_groups Eos = {}"


section \<open>The groups of a match\<close>

lemma rep_greedy_Some: "rep_greedy P n s k = Some v \<Longrightarrow> \<exists>s'. k s' = Some v"
  by (induction s arbitrary: n) (auto split: if_splits option.splits)

lemma rep_lazy_Some: "rep_lazy P n s k = Some v \<Longrightarrow> \<exists>s'. k s' = Some v"
  by (induction s arbitrary: n) (auto split: if_splits option.splits)

lemma rmatch_groups:
  "rmatch r s c k = Some v \<Longrightarrow>
   \<exists>s' c'. k s' c' = Some v \<and> dom c \<union> must_groups r \<subseteq> dom c'"
proof (induction r arbitrary: s c k)
  case (Lit w)
  then show ?case by (auto split: if_splits)
next
  case (Cls P)
  then show ?case by (auto split: if_splits list.splits)
next
  case (Rep greedy n P)
  then have "\<exists>s'. k s' c = Some v"
    by (auto split: if_splits dest: rep_greedy_Some rep_lazy_Some)
  then show ?case by auto
next
  case (Opt r)
  show ?case
  proof (cases "rmatch r s c k")
    case None
    with Opt.prems have "k s c = Some v" by simp
    then show ?thesis by auto
  next
    case (Some v')
    with Opt.prems have "rmatch r s c k = Some v" by simp
    from Opt.IH [OF this] show ?thesis by auto
  qed
next
  case (Alt a b)
  show ?case
  proof (cases "rmatch a s c k")
    case None
    with Alt.prems have "rmatch b s c k = Some v" by simp
    from Alt.IH(2) [OF this] obtain s' c' where
      "k s' c' = Some v" and "dom c \<union> must_groups b \<subseteq> dom c'"
      by blast
    then have "k s' c' = Some v \<and> dom c \<union> must_groups (Alt a b) \<subseteq> dom c'" by auto
    then show ?thesis by blast
  next
    case (Some v')
    with Alt.prems have "rmatch a s c k = Some v" by simp
    from Alt.IH(1) [OF this] obtain s' c' where
      "k s' c' = Some v" and "dom c \<union> must_groups a \<subseteq> dom c'"
      by blast
    then have "k s' c' = Some v \<and> dom c \<union> must_groups (Alt a b) \<subseteq> dom c'" by auto
    then show ?thesis by blast
  qed
next
  case (Seq a b)
  from Seq.prems have "rmatch a s c (\<lambda>s' c'. rmatch b s' c' k) = Some v" by simp
  from Seq.IH(1) [OF this] obtain s1 c1 where
    b: "rmatch b s1 c1 k = Some v" and d1: "dom c \<union> must_groups a \<subseteq> dom c1"
    by blast
  from Seq.IH(2) [OF b] obtain s2 c2 where
    k: "k s2 c2 = Some v" and d2: "dom c1 \<union> must_groups b \<subseteq> dom c2"
    by blast
  from d1 d2 have "dom c \<union> (must_groups a \<union> must_groups b) \<subseteq> dom c2"
    by blast
  with k have "k s2 c2 = Some v \<and> dom c \<union> must_groups (Seq a b) \<subseteq> dom c2"
    by (simp only: must_groups.simps)
  then show ?case by blast
next
  case (Grp g r)
  from Grp.prems have
    "rmatch r s c (\<lambda>s' c'. k s' (c'(g \<mapsto> take (length s - length s') s))) = Some v"
    by simp
  from Grp.IH [OF this] obtain s1 c1 where
    k: "k s1 (c1(g \<mapsto> take (length s - length s1) s)) = Some v"
    and d1: "dom c \<union> must_groups r \<subseteq> dom c1"
    by blast
  from d1 have "dom c \<union> must_groups (Grp g r) \<subseteq> dom (c1(g \<mapsto> take (length s - length s1) s))"
    by auto
  with k show ?case by blast
next
  case Eos
  then show ?case by (auto split: if_splits)
qed

lemma match_at_groups:
  assumes "match_at r i s = Some m"
  shows "must_groups r \<subseteq> dom (m_groups m)"
proof -
  from rmatch_groups [OF assms [unfolded match_at_def]] obtain s' :: string and c' where
    m: "Some \<lparr>m_start = i, m_end = i + (length s - length s'), m_groups = c'\<rparr> = Some m"
    and d: "must_groups r \<subseteq> dom c'"
    by blast
  from m have "m_groups m = c'" by auto
  with d show ?thesis by simp
qed

lemma WHATSAPP_RE_groups:
  "re_match WHATSAPP_RE line = Some m \<Longrightarrow>
   {''date'', ''time'', ''name'', ''body''} \<subseteq> dom (m_groups m)"
  using match_at_groups [of WHATSAPP_RE 0 line m]
  by (simp add: re_match_def WHATSAPP_RE_def DATETIME_RE_def DATE_RE_def TIME_RE_def
      SEPARATOR_RE_def NAME_RE_def BODY_RE_def seqs_def)

lemma FIRSTLINE_RE_groups:
  "re_match FIRSTLINE_RE line = Some m \<Longrightarrow>
   {''date'', ''time'', ''body''} \<subseteq> dom (m_groups m)"
  using match_at_groups [of FIRSTLINE_RE 0 line m]
  by (simp add: re_match_def FIRSTLINE_RE_def DATETIME_RE_def DATE_RE_def TIME_RE_def
      SEPARATOR_RE_def BODY_RE_def seqs_def)

section \<open>The reassembly of messages\<close>

lemma ParseLine_raises:
  "ParseLine parse line = Inl e \<Longrightarrow> e = ParserError"
  by (auto simp: ParseLine_def parsed_def Let_def split: option.splits)

lemma identify_step_started:
  "identify_step parse (ms, Some m) line = Inl e \<Longrightarrow> e = ParserError"
  by (auto simp: identify_step_def split: sum.splits option.splits prod.splits dest: ParseLine_raises)

lemma identify_step_keeps_progress:
  "identify_step parse (ms, Some m) line = Inr (ms', cur) \<Longrightarrow> cur \<noteq> None"
  by (auto simp: identify_step_def split: sum.splits option.splits prod.splits)

lemma identify_loop_started:
  "identify_loop parse (ms, Some m) lines = Inl e \<Longrightarrow> e = ParserError"
proof (induction lines arbitrary: ms m)
  case Nil
  then show ?case by simp
next
  case (Cons line lines)
  show ?case
  proof (cases "identify_step parse (ms, Some m) line")
    case (Inl e')
    with Cons.prems show ?thesis by (auto dest: identify_step_started)
  next
    case (Inr st)
    obtain ms' cur where st: "st = (ms', cur)" by (cases st)
    with Inr have "cur \<noteq> None" by (auto dest: identify_step_keeps_progress)
    then obtain m' where "cur = Some m'" by auto
    with Cons.prems Inr st show ?thesis by (auto dest: Cons.IH)
  qed
qed

lemma identify_loop_first_line:
  "identify_loop parse ([], None) (line # rest) =
     (case ParseLine parse line of
        Inl e \<Rightarrow> Inl e
      | Inr None \<Rightarrow> Inl (first_line_error line)
      | Inr (Some m) \<Rightarrow> identify_loop parse ([], Some m) rest)"
  by (simp add: identify_step_def split: sum.splits option.splits)

lemma IdentifyMessages_Error_iff:
  "(\<exists>msg. IdentifyMessages parse lines = Inl (Error msg)) \<longleftrightarrow>
   (\<exists>line rest. lines = line # rest \<and> ParseLine parse line = Inr None)"
proof (cases lines)
  case Nil
  then show ?thesis by (simp add: IdentifyMessages_def)
next
  case (Cons line rest)
  show ?thesis
  proof (cases "ParseLine parse line")
    case (Inl e)
    then have "e = ParserError" by (rule ParseLine_raises)
    with Inl Cons show ?thesis
      by (simp add: IdentifyMessages_def identify_loop_first_line del: identify_loop.simps)
  next
    case (Inr r)
    show ?thesis
    proof (cases r)
      case None
      with Inr Cons show ?thesis
        by (simp add: IdentifyMessages_def identify_loop_first_line first_line_error_def
            del: identify_loop.simps)
    next
      case (Some m)
      have "identify_loop parse ([], Some m) rest \<noteq> Inl (Error msg)" for msg
        using identify_loop_started [of parse "[]" m rest "Error msg"] by auto
      with Inr Cons Some show ?thesis
        by (auto simp: IdentifyMessages_def identify_loop_first_line
            simp del: identify_loop.simps split: sum.splits option.splits prod.splits)
    qed
  qed
qed

text \<open>
  Claim C1. \<open>IdentifyMessages\<close> raises its \<open>Error\<close> exactly when the input has a first
  line and \<open>ParseLine\<close> does not match that line, which is the only way to meet an
  unmatched line before any line has matched. On the empty input it returns the empty
  list. The message of the error holds the \<open>repr\<close> of the offending line and of both
  patterns.
\<close>

theorem IdentifyMessages_first_line_error:
  "IdentifyMessages parse [] = Inr [] \<and>
   ((\<exists>msg. IdentifyMessages parse lines = Inl (Error msg)) \<longleftrightarrow>
    (\<exists>line rest. lines = line # rest \<and> ParseLine parse line = Inr None)) \<and>
   (\<forall>line rest. lines = line # rest \<and> ParseLine parse line = Inr None \<longrightarrow>
      IdentifyMessages parse lines =
        Inl (Error (''Can't parse the first line: '' @ py_repr line @
                    '', regexes are FIRSTLINE_RE='' @ py_repr FIRSTLINE_RE_text @
                    '' and WHATSAPP_RE='' @ py_repr WHATSAPP_RE_text)))"
proof (intro conjI allI impI)
  show "IdentifyMessages parse [] = Inr []"
    by (simp add: IdentifyMessages_def)
  show "(\<exists>msg. IdentifyMessages parse lines = Inl (Error msg)) \<longleftrightarrow>
    (\<exists>line rest. lines = line # rest \<and> ParseLine parse line = Inr None)"
    by (rule IdentifyMessages_Error_iff)
next
  fix line rest
  assume "lines = line # rest \<and> ParseLine parse line = Inr None"
  then show "IdentifyMessages parse lines =
        Inl (Error (''Can't parse the first line: '' @ py_repr line @
                    '', regexes are FIRSTLINE_RE='' @ py_repr FIRSTLINE_RE_text @
                    '' and WHATSAPP_RE='' @ py_repr WHATSAPP_RE_text))"
    by (simp add: IdentifyMessages_def identify_loop_first_line first_line_error_def
        del: identify_loop.simps)
qed

theorem IdentifyMessages_first_line_error_witness:
  "ParseLine Some (''random unparseable text'' @ [newline]) = Inr None \<and>
   IdentifyMessages Some [''random unparseable text'' @ [newline]] =
     Inl (Error (''Can't parse the first line: '' @
                 [CHR 0x27] @ ''random unparseable text'' @ [backslash] @ ''n'' @ [CHR 0x27] @
                 '', regexes are FIRSTLINE_RE='' @ py_repr FIRSTLINE_RE_text @
                 '' and WHATSAPP_RE='' @ py_repr WHATSAPP_RE_text))"
proof -
  have h: "ParseLine Some (''random unparseable text'' @ [newline]) = Inr None"
    by code_simp
  have r: "py_repr (''random unparseable text'' @ [newline]) =
      [CHR 0x27] @ ''random unparseable text'' @ [backslash] @ ''n'' @ [CHR 0x27]"
    by code_simp
  from IdentifyMessages_first_line_error [of Some "[''random unparseable text'' @ [newline]]"] h r
  show ?thesis by simp
qed


lemma identify_step_count:
  "identify_step parse st line = Inr st' \<Longrightarrow>
   in_progress st' = in_progress st + (if is_match parse line then 1 else 0)"
  by (cases st) (auto simp: identify_step_def in_progress_def is_match_def
      split: sum.splits option.splits prod.splits)

lemma identify_loop_count:
  "identify_loop parse st lines = Inr st' \<Longrightarrow>
   in_progress st' = in_progress st + length (filter (is_match parse) lines)"
proof (induction lines arbitrary: st)
  case Nil
  then show ?case by simp
next
  case (Cons line lines)
  from Cons.prems obtain st1 where
    step: "identify_step parse st line = Inr st1" and
    rest: "identify_loop parse st1 lines = Inr st'"
    by (auto split: sum.splits)
  from Cons.IH [OF rest] identify_step_count [OF step] show ?case by simp
qed

text \<open>
  Claim C2. When \<open>IdentifyMessages\<close> returns, the number of messages it returns is the
  number of lines that \<open>ParseLine\<close> matches: a line that is not matched adds no message.
\<close>

theorem IdentifyMessages_length:
  "IdentifyMessages parse lines = Inr messages \<Longrightarrow>
   length messages = length (filter (is_match parse) lines)"
proof -
  assume a: "IdentifyMessages parse lines = Inr messages"
  then obtain ms cur where
    loop: "identify_loop parse ([], None) lines = Inr (ms, cur)" and
    out: "messages = (case cur of None \<Rightarrow> ms | Some msg \<Rightarrow> ms @ [msg])"
    by (auto simp: IdentifyMessages_def split: sum.splits option.splits prod.splits)
  from identify_loop_count [OF loop] out show ?thesis
    by (auto simp: in_progress_def split: option.splits)
qed

theorem IdentifyMessages_length_witness:
  "IdentifyMessages Some
     [''1/2/20, 10:00 AM - Alice: Hello'' @ [newline],
      ''World'' @ [newline],
      ''[1/2/20, 10:01:07] Bob: Hi'' @ [newline]] =
     Inr [(''1/2/20 10:00 AM'', ''Alice'', ''Hello'' @ [newline] @ ''World''),
          (''1/2/20 10:01:07'', ''Bob'', ''Hi'')] \<and>
   length [(''1/2/20 10:00 AM'', ''Alice'', ''Hello'' @ [newline] @ ''World''),
           (''1/2/20 10:01:07'', ''Bob'', ''Hi'')] =
   length (filter (is_match Some)
     [''1/2/20, 10:00 AM - Alice: Hello'' @ [newline],
      ''World'' @ [newline],
      ''[1/2/20, 10:01:07] Bob: Hi'' @ [newline]])"
proof -
  have h: "IdentifyMessages Some
     [''1/2/20, 10:00 AM - Alice: Hello'' @ [newline],
      ''World'' @ [newline],
      ''[1/2/20, 10:01:07] Bob: Hi'' @ [newline]] =
     Inr [(''1/2/20 10:00 AM'', ''Alice'', ''Hello'' @ [newline] @ ''World''),
          (''1/2/20 10:01:07'', ''Bob'', ''Hi'')]"
    by code_simp
  from IdentifyMessages_length [OF h] h show ?thesis by simp
qed

text \<open>
  Claim C3, as the program has it. For a line that \<open>ParseLine\<close> does not match, met while
  a message is in progress, the loop appends to the body of that message a newline and
  the line stripped of white space at both ends, and emits nothing.
\<close>

theorem identify_step_continuation:
  "ParseLine parse line = Inr None \<Longrightarrow>
   identify_step parse (messages, Some (msg_date, msg_user, msg_body)) line =
     Inr (messages, Some (msg_date, msg_user, msg_body @ [newline] @ py_strip line))"
  by (simp add: identify_step_def)

theorem identify_step_continuation_witness:
  "ParseLine Some (''  World '' @ [newline]) = Inr None \<and>
   identify_step Some ([], Some (''1/2/20 10:00'', ''Alice'', ''Hello'')) (''  World '' @ [newline]) =
     Inr ([], Some (''1/2/20 10:00'', ''Alice'', ''Hello'' @ [newline] @ ''World''))"
proof -
  have h: "ParseLine Some (''  World '' @ [newline]) = Inr None"
    by code_simp
  have s: "py_strip (''  World '' @ [newline]) = ''World''"
    by code_simp
  from identify_step_continuation [OF h, of "[]" "''1/2/20 10:00''" "''Alice''" "''Hello''"] h s
  show ?thesis by simp
qed

text \<open>
  The leading white space of a continuation line is not kept: after \<open>Hello\<close>, the line
  \<open>  World\<close> adds \<open>World\<close>, where stripping the trailing white space alone would add
  \<open>  World\<close>.
\<close>

theorem continuation_keeps_leading_space_counterexample:
  "ParseLine Some (''  World'' @ [newline]) = Inr None \<and>
   py_rstrip (''  World'' @ [newline]) = ''  World'' \<and>
   identify_step Some ([], Some (''1/2/20 10:00'', ''Alice'', ''Hello'')) (''  World'' @ [newline]) =
     Inr ([], Some (''1/2/20 10:00'', ''Alice'', ''Hello'' @ [newline] @ ''World'')) \<and>
   ''Hello'' @ [newline] @ ''World'' \<noteq>
     ''Hello'' @ [newline] @ py_rstrip (''  World'' @ [newline])"
  by code_simp


section \<open>Grouping by sender\<close>

lemma groupby_concat: "concat (map snd (groupby key xs)) = xs"
  by (induction key xs rule: groupby.induct) simp_all

lemma groupby_runs:
  "(k, g) \<in> set (groupby key xs) \<Longrightarrow> g \<noteq> [] \<and> (\<forall>x\<in>set g. key x = k)"
proof (induction key xs rule: groupby.induct)
  case (1 key)
  then show ?case by simp
next
  case (2 key x xs)
  from "2.prems" have
    "(k = key x \<and> g = x # takeWhile (\<lambda>y. key y = key x) xs) \<or>
     (k, g) \<in> set (groupby key (dropWhile (\<lambda>y. key y = key x) xs))"
    by simp
  then show ?case
  proof
    assume first: "k = key x \<and> g = x # takeWhile (\<lambda>y. key y = key x) xs"
    then have k: "k = key x" and g: "g = x # takeWhile (\<lambda>y. key y = key x) xs"
      by simp_all
    show ?thesis
      unfolding g k
    proof (intro conjI ballI)
      show "x # takeWhile (\<lambda>y. key y = key x) xs \<noteq> []" by simp
    next
      fix y
      assume "y \<in> set (x # takeWhile (\<lambda>y. key y = key x) xs)"
      then have "y = x \<or> y \<in> set (takeWhile (\<lambda>y. key y = key x) xs)" by simp
      then show "key y = key x"
      proof
        assume "y = x"
        then show ?thesis by simp
      next
        assume "y \<in> set (takeWhile (\<lambda>y. key y = key x) xs)"
        then show ?thesis by (rule set_takeWhileD [THEN conjunct2])
      qed
    qed
  next
    assume "(k, g) \<in> set (groupby key (dropWhile (\<lambda>y. key y = key x) xs))"
    then show ?thesis by (rule "2.IH")
  qed
qed

lemma groupby_hd:
  "groupby key xs \<noteq> [] \<Longrightarrow> xs \<noteq> [] \<and> fst (hd (groupby key xs)) = key (hd xs)"
  by (cases xs) simp_all

lemma groupby_maximal: "distinct_adj (map fst (groupby key xs))"
proof (induction key xs rule: groupby.induct)
  case (1 key)
  then show ?case by simp
next
  case (2 key x xs)
  let ?rest = "dropWhile (\<lambda>y. key y = key x) xs"
  show ?case
  proof (cases "groupby key ?rest = []")
    case True
    then show ?thesis by simp
  next
    case False
    then have ne: "?rest \<noteq> []" and h: "fst (hd (groupby key ?rest)) = key (hd ?rest)"
      using groupby_hd [of key ?rest] by auto
    from ne have "key (hd ?rest) \<noteq> key x"
      using hd_dropWhile [of "\<lambda>y. key y = key x" xs] by auto
    with h False 2 show ?thesis
      by (simp add: distinct_adj_Cons hd_map)
  qed
qed

lemma template_loop_runs:
  "template_loop (idx_of, idx, runs) gs = (idx_of', idx', runs') \<Longrightarrow> runs' = runs @ gs"
proof (induction gs arbitrary: idx_of idx runs)
  case Nil
  then show ?case by simp
next
  case (Cons g gs)
  obtain user msgs where g: "g = (user, msgs)" by (cases g)
  from Cons.prems g have "runs' = (runs @ [(user, msgs)]) @ gs"
    by (auto split: if_splits dest: Cons.IH)
  with g show ?case by simp
qed

lemma by_user_TemplateData:
  "by_user (TemplateData messages f) = groupby (\<lambda>x. fst (snd x)) messages"
proof -
  obtain a b c where
    t: "template_loop (Map.empty, 1, []) (groupby (\<lambda>x. fst (snd x)) messages) = (a, b, c)"
    by (metis prod_cases3)
  from template_loop_runs [OF t] t show ?thesis
    by (simp add: TemplateData_def)
qed

text \<open>
  Claim C5. The message lists of the runs in \<open>by_user\<close>, concatenated in order, are the
  messages given to \<open>TemplateData\<close>. Every run is non-empty, all its messages have the
  sender of the run, and two neighbouring runs have different senders.
\<close>

theorem TemplateData_partition:
  "concat (map snd (by_user (TemplateData messages f))) = messages \<and>
   (\<forall>run \<in> set (by_user (TemplateData messages f)).
      snd run \<noteq> [] \<and> (\<forall>m \<in> set (snd run). fst (snd m) = fst run)) \<and>
   distinct_adj (map fst (by_user (TemplateData messages f)))"
proof (intro conjI ballI)
  show "concat (map snd (by_user (TemplateData messages f))) = messages"
    by (simp add: by_user_TemplateData groupby_concat)
  show "distinct_adj (map fst (by_user (TemplateData messages f)))"
    by (simp add: by_user_TemplateData groupby_maximal)
next
  fix run
  assume "run \<in> set (by_user (TemplateData messages f))"
  then have r: "(fst run, snd run) \<in> set (groupby (\<lambda>x. fst (snd x)) messages)"
    by (simp add: by_user_TemplateData)
  from groupby_runs [OF r] show "snd run \<noteq> []" by simp
  fix m
  assume "m \<in> set (snd run)"
  with groupby_runs [OF r] show "fst (snd m) = fst run" by simp
qed

theorem TemplateData_partition_witness:
  "by_user (TemplateData [(1::nat, ''Alice'', ''a''), (2, ''Alice'', ''b''), (3, ''Bob'', ''c''),
                          (4, ''Alice'', ''d'')] ''chat.txt'') =
     [(''Alice'', [(1, ''Alice'', ''a''), (2, ''Alice'', ''b'')]),
      (''Bob'', [(3, ''Bob'', ''c'')]),
      (''Alice'', [(4, ''Alice'', ''d'')])] \<and>
   concat (map snd (by_user (TemplateData [(1::nat, ''Alice'', ''a''), (2, ''Alice'', ''b''),
                          (3, ''Bob'', ''c''), (4, ''Alice'', ''d'')] ''chat.txt''))) =
     [(1, ''Alice'', ''a''), (2, ''Alice'', ''b''), (3, ''Bob'', ''c''), (4, ''Alice'', ''d'')]"
proof -
  have h: "by_user (TemplateData [(1::nat, ''Alice'', ''a''), (2, ''Alice'', ''b''), (3, ''Bob'', ''c''),
                          (4, ''Alice'', ''d'')] ''chat.txt'') =
     [(''Alice'', [(1, ''Alice'', ''a''), (2, ''Alice'', ''b'')]),
      (''Bob'', [(3, ''Bob'', ''c'')]),
      (''Alice'', [(4, ''Alice'', ''d'')])]"
    by code_simp
  from TemplateData_partition [of "[(1::nat, ''Alice'', ''a''), (2, ''Alice'', ''b''),
      (3, ''Bob'', ''c''), (4, ''Alice'', ''d'')]" "''chat.txt''"] h
  show ?thesis by simp
qed

lemma first_seen_known:
  "set ys \<subseteq> set seen \<Longrightarrow> first_seen seen (ys @ zs) = first_seen seen zs"
  by (induction ys) auto

lemma first_seen_set: "set (first_seen seen xs) = set seen \<union> set xs"
  by (induction xs arbitrary: seen) auto

lemma first_seen_distinct: "distinct seen \<Longrightarrow> distinct (first_seen seen xs)"
  by (induction xs arbitrary: seen) auto

lemma first_seen_groupby:
  "first_seen seen (map fst (groupby key xs)) = first_seen seen (map key xs)"
proof (induction key xs arbitrary: seen rule: groupby.induct)
  case (1 key)
  then show ?case by simp
next
  case (2 key x xs)
  let ?P = "\<lambda>y. key y = key x"
  have split: "map key xs = map key (takeWhile ?P xs) @ map key (dropWhile ?P xs)"
    by (metis map_append takeWhile_dropWhile_id)
  have known: "set (map key (takeWhile ?P xs)) \<subseteq> set seen'" if "key x \<in> set seen'" for seen'
    using that by (auto dest: set_takeWhileD)
  show ?case
  proof (cases "key x \<in> set seen")
    case True
    then have "first_seen seen (map key (x # xs)) = first_seen seen (map key (dropWhile ?P xs))"
      using first_seen_known [OF known [OF True]] split by simp
    with True 2 show ?thesis by simp
  next
    case False
    have in': "key x \<in> set (seen @ [key x])" by simp
    have "first_seen seen (map key (x # xs)) =
        first_seen (seen @ [key x]) (map key (dropWhile ?P xs))"
      using first_seen_known [OF known [OF in']] split False by simp
    with False 2 show ?thesis by simp
  qed
qed

lemma numbered_new:
  assumes "numbered seen idx_of idx" and "idx_of user = None"
  shows "numbered (seen @ [user]) (idx_of(user \<mapsto> idx)) (idx + 1)"
proof -
  from assms have notin: "user \<notin> set seen" by (auto simp: numbered_def)
  have "(idx_of(user \<mapsto> idx)) ((seen @ [user]) ! n) = Some (n + 1)" if "n < length seen + 1" for n
  proof (cases "n < length seen")
    case True
    then have "seen ! n \<noteq> user" using notin by auto
    with True assms show ?thesis by (simp add: numbered_def nth_append)
  next
    case False
    with that have "n = length seen" by simp
    with assms show ?thesis by (simp add: numbered_def)
  qed
  with assms notin show ?thesis by (auto simp: numbered_def)
qed

lemma template_loop_numbered:
  "numbered seen idx_of idx \<Longrightarrow>
   template_loop (idx_of, idx, runs) gs = (idx_of', idx', runs') \<Longrightarrow>
   numbered (first_seen seen (map fst gs)) idx_of' idx'"
proof (induction gs arbitrary: seen idx_of idx runs)
  case Nil
  then show ?case by simp
next
  case (Cons g gs)
  obtain user msgs where g: "g = (user, msgs)" by (cases g)
  show ?case
  proof (cases "idx_of user")
    case None
    with Cons.prems(1) have notin: "user \<notin> set seen" by (auto simp: numbered_def)
    from Cons.prems(2) None g have
      "template_loop (idx_of(user \<mapsto> idx), idx + 1, runs @ [(user, msgs)]) gs = (idx_of', idx', runs')"
      by simp
    from Cons.IH [OF numbered_new [OF Cons.prems(1) None] this] notin g show ?thesis by simp
  next
    case (Some i)
    with Cons.prems(1) have isin: "user \<in> set seen" by (auto simp: numbered_def)
    from Cons.prems(2) Some g have
      "template_loop (idx_of, idx, runs @ [(user, msgs)]) gs = (idx_of', idx', runs')"
      by simp
    from Cons.IH [OF Cons.prems(1) this] isin g show ?thesis by simp
  qed
qed

lemma user_idx_numbered:
  "numbered (distinct_senders messages) (user_idx (TemplateData messages f))
     (length (distinct_senders messages) + 1)"
proof -
  obtain a b c where
    t: "template_loop (Map.empty, 1, []) (groupby (\<lambda>x. fst (snd x)) messages) = (a, b, c)"
    by (metis prod_cases3)
  have "numbered [] Map.empty 1" by (simp add: numbered_def)
  from template_loop_numbered [OF this t]
  have "numbered (distinct_senders messages) a b"
    by (simp add: first_seen_groupby distinct_senders_def)
  with t show ?thesis by (simp add: TemplateData_def numbered_def)
qed

text \<open>
  Claim C6. In \<open>user_idx\<close> the sender that is the \<open>n\<close>-th distinct sender met in the
  messages (counting from 0) has the index \<open>n + 1\<close>; the senders with an index are the
  senders of the messages, each listed once.
\<close>

theorem TemplateData_user_idx:
  "(\<forall>n < length (distinct_senders messages).
      user_idx (TemplateData messages f) (distinct_senders messages ! n) = Some (n + 1)) \<and>
   dom (user_idx (TemplateData messages f)) = set (distinct_senders messages) \<and>
   distinct (distinct_senders messages) \<and>
   set (distinct_senders messages) = (\<lambda>x. fst (snd x)) ` set messages"
  using user_idx_numbered [of messages f]
  by (simp add: numbered_def distinct_senders_def first_seen_set)

theorem TemplateData_user_idx_witness:
  "distinct_senders [(1::nat, ''Alice'', ''a''), (2, ''Bob'', ''b''), (3, ''Alice'', ''c''),
                     (4, ''Carol'', ''d'')] = [''Alice'', ''Bob'', ''Carol''] \<and>
   map (user_idx (TemplateData [(1::nat, ''Alice'', ''a''), (2, ''Bob'', ''b''), (3, ''Alice'', ''c''),
                     (4, ''Carol'', ''d'')] ''chat.txt'')) [''Alice'', ''Bob'', ''Carol''] =
     [Some 1, Some 2, Some 3]"
proof -
  have h: "distinct_senders [(1::nat, ''Alice'', ''a''), (2, ''Bob'', ''b''), (3, ''Alice'', ''c''),
                     (4, ''Carol'', ''d'')] = [''Alice'', ''Bob'', ''Carol'']"
    by code_simp
  from TemplateData_user_idx [of "[(1::nat, ''Alice'', ''a''), (2, ''Bob'', ''b''),
      (3, ''Alice'', ''c''), (4, ''Carol'', ''d'')]" "''chat.txt''"] h
  have "\<forall>n<3. user_idx (TemplateData [(1::nat, ''Alice'', ''a''), (2, ''Bob'', ''b''),
      (3, ''Alice'', ''c''), (4, ''Carol'', ''d'')] ''chat.txt'') ([''Alice'', ''Bob'', ''Carol''] ! n)
      = Some (n + 1)"
    by simp
  from this [rule_format, of 0] this [rule_format, of 1] this [rule_format, of 2] h
  show ?thesis by simp
qed



section \<open>The exception of the date parser\<close>

text \<open>
  Claim C4, as the program has it. \<open>ParseLine\<close> raises nothing of its own: it raises
  exactly when the line matches one of the two patterns and the date parser raises on
  the date and time it is given, and what it raises is the exception of the date parser.
  On every other line it returns a match or no match.
\<close>

theorem ParseLine_raises_with_date_parser:
  "ParseLine parse line = Inl e \<longleftrightarrow>
   e = ParserError \<and>
   (\<exists>m. (re_match WHATSAPP_RE line = Some m \<or>
         re_match WHATSAPP_RE line = None \<and> re_match FIRSTLINE_RE line = Some m) \<and>
        parse (group m ''date'' @ '' '' @ group m ''time'') = None)"
  by (auto simp: ParseLine_def parsed_def Let_def split: option.splits)

theorem ParseLine_raises_with_date_parser_witness:
  "re_match WHATSAPP_RE ''., : hello'' = None \<and>
   map_option (\<lambda>m. group m ''date'' @ '' '' @ group m ''time'') (re_match FIRSTLINE_RE ''., : hello'')
     = Some ''. :'' \<and>
   digits_or_raise ''. :'' = None \<and>
   ParseLine digits_or_raise ''., : hello'' = Inl ParserError"
proof -
  have w: "re_match WHATSAPP_RE ''., : hello'' = None"
    by code_simp
  have f: "map_option (\<lambda>m. group m ''date'' @ '' '' @ group m ''time'')
      (re_match FIRSTLINE_RE ''., : hello'') = Some ''. :''"
    by code_simp
  have d: "digits_or_raise ''. :'' = None"
    by code_simp
  from f obtain m where m: "re_match FIRSTLINE_RE ''., : hello'' = Some m"
    and g: "group m ''date'' @ '' '' @ group m ''time'' = ''. :''"
    by auto
  from ParseLine_raises_with_date_parser [of digits_or_raise "''., : hello''" ParserError] w m g d
  have "ParseLine digits_or_raise ''., : hello'' = Inl ParserError"
    by auto
  with w f d show ?thesis by simp
qed

text \<open>
  A line whose date and time match the pattern and are not a date: \<open>ParseLine\<close> raises.
\<close>

theorem ParseLine_raises_counterexample:
  "ParseLine digits_or_raise ''., : - A: b'' = Inl ParserError"
  by code_simp

section \<open>Attachment markers\<close>

lemma until_gt_Some:
  "until_gt xs = Some pre \<Longrightarrow>
   xs = pre @ CHR ''>'' # drop (Suc (length pre)) xs \<and> newline \<notin> set pre \<and> CHR ''>'' \<notin> set pre"
  by (induction xs arbitrary: pre) (auto split: if_splits)

lemma until_gt_complete:
  "newline \<notin> set pre \<Longrightarrow> until_gt (pre @ CHR ''>'' # rest) \<noteq> None"
  by (induction pre) auto

lemma rep_lazy_until:
  assumes "\<And>s'. k s' = (if take 1 s' = ''>'' then Some (f s') else None)"
  shows "rep_lazy dot 0 s k =
     (case until_gt s of None \<Rightarrow> None | Some pre \<Rightarrow> Some (f (drop (length pre) s)))"
  by (induction s) (auto simp: assms dot_def split: option.splits)

lemma attached_file_Some:
  assumes "attached_file s = Some file"
  shows "s = marker file @ drop (length (marker file)) s \<and> file \<noteq> [] \<and> newline \<notin> set file"
proof -
  from assms have p: "take (length ''<attached: '') s = ''<attached: ''"
    by (auto simp: attached_file_def split: if_splits)
  then have s: "s = ''<attached: '' @ drop (length ''<attached: '') s"
    by (metis append_take_drop_id)
  from assms p obtain x xs pre where
    d: "drop (length ''<attached: '') s = x # xs" and x: "x \<noteq> newline" and u: "until_gt xs = Some pre" and
    f: "file = x # pre"
    by (auto simp: attached_file_def split: if_splits list.splits)
  from until_gt_Some [OF u] obtain rest where
    xs: "xs = pre @ CHR ''>'' # rest" and n: "newline \<notin> set pre"
    by blast
  from s d xs f have "s = marker file @ rest"
    by (simp add: marker_def)
  then have "s = marker file @ drop (length (marker file)) s"
    by (metis append_eq_conv_conj)
  with f x n show ?thesis by simp
qed

lemma attached_file_complete:
  assumes "file \<noteq> []" and "newline \<notin> set file"
  shows "attached_file (marker file @ rest) \<noteq> None"
proof -
  from assms obtain x pre where f: "file = x # pre" by (cases "file") auto
  with assms have "until_gt (pre @ CHR ''>'' # rest) \<noteq> None"
    by (simp add: until_gt_complete)
  with f assms show ?thesis
    by (auto simp: attached_file_def marker_def)
qed

lemma match_at_ATTACHED_RE:
  "match_at ATTACHED_RE i s =
     (case attached_file s of
        None \<Rightarrow> None
      | Some file \<Rightarrow>
          Some \<lparr>m_start = i, m_end = i + length (marker file),
                m_groups = [''2'' \<mapsto> file, ''1'' \<mapsto> marker file]\<rparr>)"
proof (cases "take (length ''<attached: '') s = ''<attached: ''")
  case False
  then show ?thesis
    by (simp add: match_at_def ATTACHED_RE_def seqs_def attached_file_def)
next
  case True
  then have s: "s = ''<attached: '' @ drop (length ''<attached: '') s"
    by (metis append_take_drop_id)
  show ?thesis
  proof (cases "drop (length ''<attached: '') s")
    case Nil
    with True show ?thesis
      by (simp add: match_at_def ATTACHED_RE_def seqs_def attached_file_def)
  next
    case (Cons x xs)
    define f where "f = (\<lambda>s'::string.
        \<lparr>m_start = i, m_end = i + (length s - length (drop (length ''>'') s')),
         m_groups =
           [''2'' \<mapsto> take (length (drop (length ''<attached: '') s) - length s')
                        (drop (length ''<attached: '') s),
            ''1'' \<mapsto> take (length s - length (drop (length ''>'') s')) s]\<rparr>)"
    define k where "k = (\<lambda>s'. if take 1 s' = ''>'' then Some (f s') else None)"
    have m: "match_at ATTACHED_RE i s = rep_lazy dot 1 (x # xs) k"
      unfolding k_def f_def using True Cons
      by (simp add: match_at_def ATTACHED_RE_def seqs_def)
    have l: "rep_lazy dot 0 xs k =
        (case until_gt xs of None \<Rightarrow> None | Some pre \<Rightarrow> Some (f (drop (length pre) xs)))"
      by (rule rep_lazy_until) (simp add: k_def)
    show ?thesis
    proof (cases "x = newline")
      case True
      with m \<open>take (length ''<attached: '') s = ''<attached: ''\<close> Cons show ?thesis
        by (simp add: attached_file_def dot_def)
    next
      case False
      show ?thesis
      proof (cases "until_gt xs")
        case None
        with m l False True Cons show ?thesis
          by (simp add: attached_file_def dot_def)
      next
        case (Some pre)
        from until_gt_Some [OF Some] obtain rest where xs: "xs = pre @ CHR ''>'' # rest"
          by blast
        from s Cons xs have sm: "s = marker (x # pre) @ rest"
          by (simp add: marker_def)
        have d1: "drop (length ''>'') (drop (length pre) xs) = rest"
          using xs by simp
        have e1: "length s - length rest = length (marker (x # pre))"
          using sm by simp
        have t1: "take (length (marker (x # pre))) s = marker (x # pre)"
          using sm by simp
        have t2: "take (length (x # xs) - length (drop (length pre) xs)) (x # xs) = x # pre"
          using xs by simp
        have "f (drop (length pre) xs) =
            \<lparr>m_start = i, m_end = i + length (marker (x # pre)),
             m_groups = [''2'' \<mapsto> x # pre, ''1'' \<mapsto> marker (x # pre)]\<rparr>"
          unfolding f_def Cons by (simp only: d1 e1 t1 t2)
        with m l False True Cons Some show ?thesis
          by (simp add: attached_file_def dot_def)
      qed
    qed
  qed
qed


lemma search_from_Some:
  "search_from r i s = Some m \<Longrightarrow>
   \<exists>j\<le>length s. match_at r (i + j) (drop j s) = Some m \<and>
     (\<forall>j'<j. match_at r (i + j') (drop j' s) = None)"
proof (induction s arbitrary: i)
  case Nil
  then show ?case by simp
next
  case (Cons x xs)
  show ?case
  proof (cases "match_at r i (x # xs)")
    case (Some m')
    with Cons.prems have "match_at r (i + 0) (drop 0 (x # xs)) = Some m" by simp
    then show ?thesis by blast
  next
    case None
    with Cons.prems have "search_from r (Suc i) xs = Some m" by simp
    from Cons.IH [OF this] obtain j where
      j: "j \<le> length xs" "match_at r (Suc i + j) (drop j xs) = Some m"
         "\<forall>j'<j. match_at r (Suc i + j') (drop j' xs) = None"
      by blast
    have "match_at r (i + j') (drop j' (x # xs)) = None" if "j' < Suc j" for j'
    proof (cases j')
      case 0
      with None show ?thesis by simp
    next
      case (Suc n)
      with that j(3) show ?thesis by simp
    qed
    with j(1,2) have "Suc j \<le> length (x # xs) \<and>
        match_at r (i + Suc j) (drop (Suc j) (x # xs)) = Some m \<and>
        (\<forall>j'<Suc j. match_at r (i + j') (drop j' (x # xs)) = None)"
      by simp
    then show ?thesis by blast
  qed
qed


lemma attached_file_None_iff:
  "match_at ATTACHED_RE i s = None \<longleftrightarrow> attached_file s = None"
  by (simp add: match_at_ATTACHED_RE split: option.splits)

lemma marker_occurs:
  assumes "file \<noteq> []" and "newline \<notin> set file" and "take (length (marker file)) t = marker file"
  shows "attached_file t \<noteq> None"
proof -
  from assms(3) have "t = marker file @ drop (length (marker file)) t"
    by (metis append_take_drop_id)
  with attached_file_complete [OF assms(1,2), of "drop (length (marker file)) t"]
  show ?thesis by simp
qed


lemma re_search_ATTACHED_Some:
  assumes "re_search ATTACHED_RE body = Some m"
  shows "\<exists>file. file \<noteq> [] \<and> newline \<notin> set file \<and>
     m_end m = m_start m + length (marker file) \<and>
     m_groups m = [''2'' \<mapsto> file, ''1'' \<mapsto> marker file] \<and>
     m_start m \<le> length body \<and>
     drop (m_start m) body = marker file @ drop (m_start m + length (marker file)) body \<and>
     (\<forall>j<m_start m. attached_file (drop j body) = None)"
proof -
  from search_from_Some [OF assms [unfolded re_search_def]] obtain j where
    j: "j \<le> length body" "match_at ATTACHED_RE j (drop j body) = Some m"
       "\<forall>j'<j. match_at ATTACHED_RE j' (drop j' body) = None"
    by auto
  from j(2) obtain fname where
    f: "attached_file (drop j body) = Some fname" and
    m: "m = \<lparr>m_start = j, m_end = j + length (marker fname),
              m_groups = [''2'' \<mapsto> fname, ''1'' \<mapsto> marker fname]\<rparr>"
    by (auto simp: match_at_ATTACHED_RE split: option.splits)
  from attached_file_Some [OF f] have
    "drop j body = marker fname @ drop (j + length (marker fname)) body"
    "fname \<noteq> []" "newline \<notin> set fname"
    by (simp_all add: add.commute)
  moreover from j(3) have "\<forall>j'<j. attached_file (drop j' body) = None"
    by (simp add: attached_file_None_iff)
  moreover from m have "m_start m = j" "m_end m = j + length (marker fname)"
    "m_groups m = [''2'' \<mapsto> fname, ''1'' \<mapsto> marker fname]"
    by simp_all
  ultimately show ?thesis using j(1) by auto
qed

lemma replace_scan_first:
  assumes "old \<noteq> []"
    and "\<forall>j<length pre. take (length old) (drop j (pre @ old @ post)) \<noteq> old"
  shows "replace_scan old new (pre @ old @ post) = pre @ new @ replace_scan old new post"
  using assms(2)
proof (induction pre)
  case Nil
  from assms(1) obtain c cs where "old = c # cs" by (cases old) auto
  then show ?case by simp
next
  case (Cons p ps)
  from Cons.prems have here: "take (length old) (p # ps @ old @ post) \<noteq> old"
    by force
  have "\<forall>j<length ps. take (length old) (drop j (ps @ old @ post)) \<noteq> old"
  proof (intro allI impI)
    fix j
    assume "j < length ps"
    then have "Suc j < length (p # ps)" by simp
    with Cons.prems have "take (length old) (drop (Suc j) ((p # ps) @ old @ post)) \<noteq> old"
      by blast
    then show "take (length old) (drop j (ps @ old @ post)) \<noteq> old" by simp
  qed
  from Cons.IH [OF this] here show ?case by simp
qed


lemma replace_attachment_found:
  assumes "re_search ATTACHED_RE body = Some m"
  shows "\<exists>file. file \<noteq> [] \<and> newline \<notin> set file \<and>
     group m ''2'' = file \<and> group m ''1'' = marker file \<and>
     m_end m = m_start m + length (marker file) \<and>
     body = take (m_start m) body @ marker file @ drop (m_end m) body \<and>
     replace_attachment body =
       take (m_start m) body @ attachment_html file @
       py_replace (marker file) (attachment_html file) (drop (m_end m) body)"
proof -
  from re_search_ATTACHED_Some [OF assms] obtain fname where
    f: "fname \<noteq> []" "newline \<notin> set fname" and
    e: "m_end m = m_start m + length (marker fname)" and
    g: "m_groups m = [''2'' \<mapsto> fname, ''1'' \<mapsto> marker fname]" and
    le: "m_start m \<le> length body" and
    d: "drop (m_start m) body = marker fname @ drop (m_start m + length (marker fname)) body" and
    before: "\<forall>j<m_start m. attached_file (drop j body) = None"
    by blast
  define pre where "pre = take (m_start m) body"
  define post where "post = drop (m_start m + length (marker fname)) body"
  from g have g2: "group m ''2'' = fname" and g1: "group m ''1'' = marker fname"
    by (simp_all add: group_def)
  have body: "body = pre @ marker fname @ post"
    using d by (metis append_take_drop_id pre_def post_def)
  have len: "length pre = m_start m"
    using le by (simp add: pre_def)
  have ne: "marker fname \<noteq> []" by (simp add: marker_def)
  have "\<forall>j<length pre. take (length (marker fname)) (drop j (pre @ marker fname @ post)) \<noteq> marker fname"
  proof (intro allI impI)
    fix j
    assume "j < length pre"
    with before len body have "attached_file (drop j (pre @ marker fname @ post)) = None"
      by simp
    with marker_occurs [OF f] show
      "take (length (marker fname)) (drop j (pre @ marker fname @ post)) \<noteq> marker fname"
      by blast
  qed
  from replace_scan_first [OF ne this]
  have "py_replace (marker fname) (attachment_html fname) body =
      pre @ attachment_html fname @ py_replace (marker fname) (attachment_html fname) post"
    using ne body by (simp add: py_replace_def)
  with assms g1 g2 have "replace_attachment body =
      pre @ attachment_html fname @ py_replace (marker fname) (attachment_html fname) post"
    by (simp add: replace_attachment_def)
  with f g1 g2 e body have "fname \<noteq> [] \<and> newline \<notin> set fname \<and>
     group m ''2'' = fname \<and> group m ''1'' = marker fname \<and>
     m_end m = m_start m + length (marker fname) \<and>
     body = take (m_start m) body @ marker fname @ drop (m_end m) body \<and>
     replace_attachment body =
       take (m_start m) body @ attachment_html fname @
       py_replace (marker fname) (attachment_html fname) (drop (m_end m) body)"
    unfolding pre_def post_def by simp
  then show ?thesis by (rule exI)
qed

lemma search_from_NoneI:
  "(\<And>j. j \<le> length s \<Longrightarrow> match_at r (i + j) (drop j s) = None) \<Longrightarrow> search_from r i s = None"
proof (induction s arbitrary: i)
  case Nil
  from Nil [of 0] show ?case by simp
next
  case (Cons x xs)
  from Cons.prems [of 0] have here: "match_at r i (x # xs) = None" by simp
  have "match_at r (Suc i + j) (drop j xs) = None" if "j \<le> length xs" for j
    using Cons.prems [of "Suc j"] that by simp
  from Cons.IH [OF this] here show ?case by simp
qed

lemma attached_file_extend:
  assumes "attached_file xs = Some fname"
  shows "attached_file (xs @ ys) \<noteq> None"
proof -
  from attached_file_Some [OF assms] obtain rest where
    d: "xs = marker fname @ rest" and ne: "fname \<noteq> []" and nl: "newline \<notin> set fname"
    by blast
  have "attached_file (marker fname @ rest @ ys) \<noteq> None"
    by (rule attached_file_complete [OF ne nl])
  then show ?thesis
    unfolding d by simp
qed

lemma attached_file_Nil: "attached_file [] = None"
  by (simp add: attached_file_def)

lemma no_marker_before:
  assumes "\<forall>j<length pre. attached_file (drop j (pre @ post)) = None"
  shows "re_search ATTACHED_RE pre = None"
  unfolding re_search_def
proof (rule search_from_NoneI)
  fix j
  assume j: "j \<le> length pre"
  have "attached_file (drop j pre) = None"
  proof (cases "j < length pre")
    case False
    with j have "drop j pre = []" by simp
    then show ?thesis by (simp only: attached_file_Nil)
  next
    case True
    have e: "drop j (pre @ post) = drop j pre @ post"
      using True by simp
    show ?thesis
    proof (rule ccontr)
      assume "attached_file (drop j pre) \<noteq> None"
      then obtain fname where "attached_file (drop j pre) = Some fname" by blast
      from attached_file_extend [OF this, of post]
      have "attached_file (drop j (pre @ post)) \<noteq> None"
        using True by simp
      moreover note assms [rule_format, OF True]
      ultimately show False by (rule notE)
    qed
  qed
  then show "match_at ATTACHED_RE (0 + j) (drop j pre) = None"
    by (simp only: attached_file_None_iff)
qed







text \<open>
  Claim C7, as the program has it. When the pattern finds a marker in the body, no
  marker lies in the text before it; \<open>replace_attachment\<close> keeps that text, replaces the
  marker found by the HTML of its file, and in the text after it replaces the further
  copies of this very marker, and nothing else.
\<close>

theorem replace_attachment_first_marker:
  assumes "re_search ATTACHED_RE body = Some m"
  shows "body = take (m_start m) body @ ''<attached: '' @ group m ''2'' @ ''>'' @ drop (m_end m) body \<and>
     re_search ATTACHED_RE (take (m_start m) body) = None \<and>
     replace_attachment body =
       take (m_start m) body @ attachment_html (group m ''2'') @
       py_replace (''<attached: '' @ group m ''2'' @ ''>'') (attachment_html (group m ''2''))
         (drop (m_end m) body)"
proof -
  from replace_attachment_found [OF assms] obtain fname where
    g: "group m ''2'' = fname" and
    b: "body = take (m_start m) body @ marker fname @ drop (m_end m) body" and
    r: "replace_attachment body =
       take (m_start m) body @ attachment_html fname @
       py_replace (marker fname) (attachment_html fname) (drop (m_end m) body)"
    by blast
  from re_search_ATTACHED_Some [OF assms] have
    le: "m_start m \<le> length body" and
    before: "\<forall>j<m_start m. attached_file (drop j body) = None"
    by blast+
  have "\<forall>j<length (take (m_start m) body).
      attached_file (drop j (take (m_start m) body @ drop (m_start m) body)) = None"
    using le before by simp
  then have "re_search ATTACHED_RE (take (m_start m) body) = None"
    by (rule no_marker_before)
  with g b r show ?thesis by (simp add: marker_def)
qed

theorem replace_attachment_first_marker_witness:
  \<open>map_option (\<lambda>m. (m_start m, m_end m, group m ''2''))
     (re_search ATTACHED_RE ''see <attached: a.mp4> and <attached: a.mp4>, <attached: b.mp4>'')
     = Some (4, 21, ''a.mp4'') \<and>
   replace_attachment ''see <attached: a.mp4> and <attached: a.mp4>, <attached: b.mp4>'' =
     ''see <video controls src="a.mp4" /><br> and <video controls src="a.mp4" /><br>, <attached: b.mp4>''\<close>
proof -
  have h: "map_option (\<lambda>m. (m_start m, m_end m, group m ''2''))
     (re_search ATTACHED_RE ''see <attached: a.mp4> and <attached: a.mp4>, <attached: b.mp4>'')
     = Some (4, 21, ''a.mp4'')"
    by code_simp
  then obtain m where
    m: "re_search ATTACHED_RE ''see <attached: a.mp4> and <attached: a.mp4>, <attached: b.mp4>'' = Some m"
    and s: "m_start m = 4" and e: "m_end m = 21" and g: "group m ''2'' = ''a.mp4''"
    by auto
  have p: \<open>take 4 ''see <attached: a.mp4> and <attached: a.mp4>, <attached: b.mp4>'' @
      attachment_html ''a.mp4'' @
      py_replace (''<attached: '' @ ''a.mp4'' @ ''>'') (attachment_html ''a.mp4'')
        (drop 21 ''see <attached: a.mp4> and <attached: a.mp4>, <attached: b.mp4>'') =
     ''see <video controls src="a.mp4" /><br> and <video controls src="a.mp4" /><br>, <attached: b.mp4>''\<close>
    by code_simp
  from replace_attachment_first_marker [OF m] have
    "replace_attachment ''see <attached: a.mp4> and <attached: a.mp4>, <attached: b.mp4>'' =
       take (m_start m) ''see <attached: a.mp4> and <attached: a.mp4>, <attached: b.mp4>'' @
       attachment_html (group m ''2'') @
       py_replace (''<attached: '' @ group m ''2'' @ ''>'') (attachment_html (group m ''2''))
         (drop (m_end m) ''see <attached: a.mp4> and <attached: a.mp4>, <attached: b.mp4>'')"
    by blast
  with s e g p h show ?thesis by (simp only:)
qed

text \<open>
  A second marker with another file name stays in the result.
\<close>

theorem replace_attachment_second_marker_counterexample:
  \<open>replace_attachment ''<attached: a.jpg> <attached: b.mp4>'' =
     ''<a target="_blank" href="a.jpg"><img width="128" height="128" src="a.jpg" /></a><br> <attached: b.mp4>'' \<and>
   map_option m_start
     (re_search ATTACHED_RE (replace_attachment ''<attached: a.jpg> <attached: b.mp4>''))
     = Some 85\<close>
  by code_simp


text \<open>
  Claim C8, as the program has it. A body in which the pattern finds no marker is
  returned as it is; so a second application changes nothing whenever the result of the
  first holds no marker.
\<close>

theorem replace_attachment_no_marker:
  "(re_search ATTACHED_RE s = None \<longrightarrow> replace_attachment s = s) \<and>
   (re_search ATTACHED_RE (replace_attachment s) = None \<longrightarrow>
      replace_attachment (replace_attachment s) = replace_attachment s)"
  by (simp add: replace_attachment_def)

theorem replace_attachment_no_marker_witness:
  \<open>re_search ATTACHED_RE ''see you at 10 > 9'' = None \<and>
   replace_attachment ''see you at 10 > 9'' = ''see you at 10 > 9'' \<and>
   re_search ATTACHED_RE (replace_attachment ''<attached: a.opus>'') = None \<and>
   replace_attachment (replace_attachment ''<attached: a.opus>'') =
     replace_attachment ''<attached: a.opus>''\<close>
proof -
  have a: "re_search ATTACHED_RE ''see you at 10 > 9'' = None"
    by code_simp
  have b: "re_search ATTACHED_RE (replace_attachment ''<attached: a.opus>'') = None"
    by code_simp
  have c: "replace_attachment ''see you at 10 > 9'' = ''see you at 10 > 9''"
    by (rule replace_attachment_no_marker [THEN conjunct1, rule_format, OF a])
  have d: "replace_attachment (replace_attachment ''<attached: a.opus>'') =
     replace_attachment ''<attached: a.opus>''"
    by (rule replace_attachment_no_marker [THEN conjunct2, rule_format, OF b])
  from a b c d show ?thesis by (intro conjI)
qed

text \<open>
  With two markers of different files the first application replaces one and the
  second application the other: twice is not once.
\<close>

theorem replace_attachment_idempotent_counterexample:
  \<open>replace_attachment ''<attached: a.opus><attached: b.opus>'' =
     ''<audio controls src="a.opus" /><br><attached: b.opus>'' \<and>
   replace_attachment (replace_attachment ''<attached: a.opus><attached: b.opus>'') =
     ''<audio controls src="a.opus" /><br><audio controls src="b.opus" /><br>'' \<and>
   replace_attachment (replace_attachment ''<attached: a.opus><attached: b.opus>'') \<noteq>
     replace_attachment ''<attached: a.opus><attached: b.opus>''\<close>
  by code_simp




section \<open>The classes of the rendered runs\<close>
















end
